theory Spec2Isabelle
  imports Main
begin

section \<open>Numbers\<close>

text \<open>
  The parameters of \<^verbatim>\<open>generatePagination\<close> have the type \<^verbatim>\<open>number\<close>: IEEE-754 binary64
  values. The function is specified on integers, so a number is modelled by the integer it
  denotes, and every \<^verbatim>\<open>+\<close> and \<^verbatim>\<open>-\<close> of the source computes the exact integer result and
  then rounds it to the nearest binary64 value, ties to the even significand.

  \<open>width n\<close> is the number of binary digits of a positive integer. A binary64 value has a
  significand of 53 binary digits, so in the binade of \<open>n\<close> neighbouring values are
  \<open>ulp n = 2 ^ (width n - 53)\<close> apart, which is \<open>1\<close> as long as \<open>n < 2 ^ 53\<close>.
\<close>

function width :: "int \<Rightarrow> nat" where
  "width n = (if n \<le> 0 then 0 else Suc (width (n div 2)))"
  by pat_completeness auto
termination
  by (relation "measure nat") auto

declare width.simps [simp del]

definition ulp :: "int \<Rightarrow> int" where
  "ulp n = 2 ^ (width n - 53)"

text \<open>Rounding of a non-negative integer: to the nearest multiple of \<open>ulp n\<close>, ties to even.\<close>

definition round_even :: "int \<Rightarrow> int" where
  "round_even n =
     (let u = ulp n; q = n div u; r = n mod u
      in if 2 * r < u \<or> (2 * r = u \<and> even q) then q * u else (q + 1) * u)"

text \<open>Rounding is symmetric about zero.\<close>

definition fl :: "int \<Rightarrow> int" where
  "fl x = (if x < 0 then - round_even (- x) else round_even x)"

text \<open>
  An integer is a value of the type \<^verbatim>\<open>number\<close> when rounding leaves it unchanged and its
  magnitude is at most the largest finite binary64 value, \<open>2 ^ 1024 - 2 ^ 971\<close>.
\<close>

definition is_double :: "int \<Rightarrow> bool" where
  "is_double n = (fl n = n \<and> \<bar>n\<bar> \<le> 2 ^ 1024 - 2 ^ 971)"

definition number_add :: "int \<Rightarrow> int \<Rightarrow> int" where
  "number_add a b = fl (a + b)"

definition number_sub :: "int \<Rightarrow> int \<Rightarrow> int" where
  "number_sub a b = fl (a - b)"

section \<open>Data model\<close>

text \<open>
  \<^verbatim>\<open>generatePagination\<close> (chapter 10, section 2.2, \<^verbatim>\<open>app/lib/utils.ts\<close>) returns an array whose
  elements are either numbers (page numbers) or the string \<^verbatim>\<open>'...'\<close>. The element type
  \<^verbatim>\<open>number | string\<close> is a two-constructor datatype.
\<close>

datatype label = Num int | Str string

section \<open>Array construction\<close>

text \<open>
  \<^verbatim>\<open>Array.from({ length: n }, (_, i) => f(i))\<close> reads the \<^verbatim>\<open>length\<close> property through the
  language's \<^verbatim>\<open>ToLength\<close> conversion, which maps every non-positive integer to \<open>0\<close> and caps
  at \<open>2 ^ 53 - 1\<close>, and then calls the mapping function on the indices \<open>0, 1, ..., len - 1\<close>.
  The function below calls it only with a length of at most seven.
\<close>

definition ToLength :: "int \<Rightarrow> nat" where
  "ToLength len = (if len \<le> 0 then 0 else nat (min len (2 ^ 53 - 1)))"

definition Array_from :: "int \<Rightarrow> (int \<Rightarrow> 'a) \<Rightarrow> 'a list" where
  "Array_from len f = map (\<lambda>i. f (int i)) [0..<ToLength len]"

section \<open>The pagination window\<close>

text \<open>
  The four branches of the source, in the source's order: all pages when there are at most
  seven; the first three pages; the last three pages; the middle. Comparisons of numbers
  are exact; every addition and subtraction rounds.
\<close>

definition generatePagination :: "int \<Rightarrow> int \<Rightarrow> label list" where
  "generatePagination currentPage totalPages =
     (if totalPages \<le> 7 then Array_from totalPages (\<lambda>i. Num (number_add i 1))
      else if currentPage \<le> 3 then
        [Num 1, Num 2, Num 3, Str ''...'', Num (number_sub totalPages 1), Num totalPages]
      else if currentPage \<ge> number_sub totalPages 2 then
        [Num 1, Num 2, Str ''...'', Num (number_sub totalPages 2),
         Num (number_sub totalPages 1), Num totalPages]
      else
        [Num 1, Str ''...'', Num (number_sub currentPage 1), Num currentPage,
         Num (number_add currentPage 1), Str ''...'', Num totalPages])"

section \<open>Observations on a window\<close>

text \<open>The numeric labels of a window, left to right.\<close>

fun numbers :: "label list \<Rightarrow> int list" where
  "numbers [] = []"
| "numbers (Num n # ls) = n # numbers ls"
| "numbers (Str s # ls) = numbers ls"

text \<open>Whether two ellipsis markers stand next to each other somewhere in a window.\<close>

fun adjacent_ellipsis :: "label list \<Rightarrow> bool" where
  "adjacent_ellipsis (x # y # ls) =
     ((x = Str ''...'' \<and> y = Str ''...'') \<or> adjacent_ellipsis (y # ls))"
| "adjacent_ellipsis _ = False"

section \<open>Rounding: binary digits\<close>

lemma width_nonpos: "n \<le> 0 \<Longrightarrow> width n = 0"
  by (subst width.simps) simp

lemma width_le_iff: "width n \<le> k \<longleftrightarrow> n < 2 ^ k"
proof (induction k arbitrary: n)
  case 0
  show ?case by (subst width.simps) auto
next
  case (Suc k)
  show ?case
  proof (cases "n \<le> 0")
    case True
    have "(0::int) < 2 ^ Suc k" by simp
    with True have "n < 2 ^ Suc k" by linarith
    then show ?thesis using True by (simp add: width_nonpos)
  next
    case False
    have "width n = Suc (width (n div 2))" using False by (subst width.simps) simp
    then have "width n \<le> Suc k \<longleftrightarrow> n div 2 < 2 ^ k" using Suc by simp
    also have "\<dots> \<longleftrightarrow> n < 2 ^ Suc k" by auto
    finally show ?thesis .
  qed
qed

lemma width_upper: "n < 2 ^ width n"
  using width_le_iff [of n "width n"] by simp

lemma width_lower:
  assumes "0 < n"
  shows "2 ^ (width n - 1) \<le> n"
proof -
  have "width n \<noteq> 0" using assms width_le_iff [of n 0] by auto
  then have "\<not> width n \<le> width n - 1" by simp
  then show ?thesis using width_le_iff [of n "width n - 1"] by simp
qed

lemma width_mono: "m \<le> n \<Longrightarrow> width m \<le> width n"
  using width_le_iff [of m "width n"] width_upper [of n] by simp

lemma width_pow53: "width (2 ^ 53) = 54"
proof -
  have "width (2 ^ 53) \<le> 54" by (simp add: width_le_iff)
  moreover have "\<not> width (2 ^ 53) \<le> 53" by (simp add: width_le_iff)
  ultimately show ?thesis by simp
qed

section \<open>Rounding: exactness and monotonicity\<close>

lemma ulp_pos: "0 < ulp n"
  by (simp add: ulp_def)

lemma ulp_small: "n < 2 ^ 53 \<Longrightarrow> ulp n = 1"
  using width_le_iff [of n 53] by (simp add: ulp_def)

lemma div_mult_le: "0 < u \<Longrightarrow> (n div u) * u \<le> (n::int)"
  using div_mult_mod_eq [of n u] pos_mod_sign [of u n] by linarith

lemma div_less_bound:
  assumes "0 < u" and "n < k * u"
  shows "n div u < (k::int)"
proof (rule ccontr)
  assume "\<not> n div u < k"
  then have "k * u \<le> (n div u) * u"
    using assms(1) by (intro mult_right_mono) auto
  with div_mult_le [OF assms(1), of n] assms(2) show False by simp
qed

lemma le_div_bound:
  assumes "0 < u" and "k * u \<le> n"
  shows "(k::int) \<le> n div u"
proof -
  have "(k * u) div u \<le> n div u" using assms by (intro zdiv_mono1) auto
  then show ?thesis using assms(1) by simp
qed

lemma round_even_exact: "n mod ulp n = 0 \<Longrightarrow> round_even n = n"
  using ulp_pos [of n] by (auto simp add: round_even_def Let_def)

lemma round_even_small: "n < 2 ^ 53 \<Longrightarrow> round_even n = n"
  by (simp add: round_even_exact ulp_small)

lemma round_even_pow53: "round_even (2 ^ 53) = 2 ^ 53"
  by (rule round_even_exact) (simp only: ulp_def width_pow53, simp)

lemma round_even_le53: "n \<le> 2 ^ 53 \<Longrightarrow> round_even n = n"
  using round_even_small [of n] round_even_pow53 by (cases "n = 2 ^ 53") simp_all

lemma round_even_lower: "(n div ulp n) * ulp n \<le> round_even n"
  using ulp_pos [of n] by (auto simp add: round_even_def Let_def)

lemma round_even_upper: "round_even n \<le> (n div ulp n + 1) * ulp n"
  using ulp_pos [of n] by (auto simp add: round_even_def Let_def)

lemma round_even_nonneg:
  assumes "0 \<le> n"
  shows "0 \<le> round_even n"
proof -
  have "0 \<le> n div ulp n"
    using assms ulp_pos [of n] by (simp add: pos_imp_zdiv_nonneg_iff)
  then have "0 \<le> (n div ulp n) * ulp n"
    using ulp_pos [of n] by (intro mult_nonneg_nonneg) auto
  with round_even_lower [of n] show ?thesis by linarith
qed

lemma round_even_le_pow: "round_even n \<le> 2 ^ width n"
proof (cases "width n \<le> 53")
  case True
  then have "n < 2 ^ 53" by (simp add: width_le_iff)
  then show ?thesis using width_upper [of n] by (simp add: round_even_small)
next
  case False
  define u where "u = ulp n"
  have u: "u = 2 ^ (width n - 53)" by (simp add: u_def ulp_def)
  have "(2::int) ^ width n = 2 ^ (53 + (width n - 53))" using False by simp
  also have "\<dots> = 2 ^ 53 * 2 ^ (width n - 53)" by (rule power_add)
  finally have split: "(2::int) ^ width n = 2 ^ 53 * u" by (simp only: u)
  have "n < 2 ^ 53 * u" using width_upper [of n] split by simp
  then have "n div u < 2 ^ 53"
    using ulp_pos [of n] unfolding u_def by (intro div_less_bound) auto
  then have "(n div u + 1) * u \<le> 2 ^ 53 * u"
    using ulp_pos [of n] unfolding u_def by (intro mult_right_mono) auto
  then show ?thesis using round_even_upper [of n] split by (simp add: u_def)
qed

lemma round_even_ge_pow:
  assumes pos: "0 < n"
  shows "2 ^ (width n - 1) \<le> round_even n"
proof (cases "width n \<le> 53")
  case True
  then have "n < 2 ^ 53" by (simp add: width_le_iff)
  then show ?thesis using width_lower [OF pos] by (simp add: round_even_small)
next
  case False
  define u where "u = ulp n"
  have u: "u = 2 ^ (width n - 53)" by (simp add: u_def ulp_def)
  have upos: "0 < u" by (simp add: u)
  have "(2::int) ^ (width n - 1) = 2 ^ (52 + (width n - 53))" using False by simp
  also have "\<dots> = 2 ^ 52 * 2 ^ (width n - 53)" by (rule power_add)
  finally have split: "(2::int) ^ (width n - 1) = 2 ^ 52 * u" by (simp only: u)
  have "2 ^ 52 * u \<le> n" using width_lower [OF pos] split by simp
  then have "2 ^ 52 \<le> n div u"
    using upos by (intro le_div_bound) auto
  then have "2 ^ 52 * u \<le> (n div u) * u"
    using upos by (intro mult_right_mono) auto
  then show ?thesis using round_even_lower [of n] split by (simp add: u_def)
qed

lemma round_even_mono:
  assumes "0 \<le> m" and "m \<le> n"
  shows "round_even m \<le> round_even n"
proof (cases "width m = width n")
  case True
  define u where "u = ulp n"
  have um: "ulp m = u" by (simp add: u_def ulp_def True)
  have upos: "0 < u" by (simp add: u_def ulp_pos)
  have qle: "m div u \<le> n div u" using assms upos by (simp add: zdiv_mono1)
  show ?thesis
  proof (cases "m div u = n div u")
    case False
    with qle have "m div u + 1 \<le> n div u" by simp
    then have "(m div u + 1) * u \<le> (n div u) * u"
      using upos by (intro mult_right_mono) auto
    then show ?thesis
      using round_even_upper [of m] round_even_lower [of n] by (simp add: um u_def)
  next
    case same: True
    have "m mod u \<le> n mod u"
      using assms same by (metis add_le_cancel_left mult_div_mod_eq)
    then show ?thesis
      using same upos by (auto simp add: round_even_def Let_def um u_def [symmetric])
  qed
next
  case False
  with assms have lt: "width m < width n" using width_mono [of m n] by simp
  then have npos: "0 < n" using width_nonpos [of n] by (cases "n \<le> 0") auto
  have "round_even m \<le> 2 ^ width m" by (rule round_even_le_pow)
  also have "\<dots> \<le> (2::int) ^ (width n - 1)" using lt by (intro power_increasing) auto
  also have "\<dots> \<le> round_even n" using npos by (rule round_even_ge_pow)
  finally show ?thesis .
qed

lemma fl_mono: "x \<le> y \<Longrightarrow> fl x \<le> fl y"
  using round_even_mono [of x y] round_even_mono [of "- y" "- x"]
    round_even_nonneg [of y] round_even_nonneg [of "- x"]
  by (auto simp add: fl_def)

lemma fl_exact: "\<bar>x\<bar> \<le> 2 ^ 53 \<Longrightarrow> fl x = x"
  by (simp add: fl_def round_even_le53)

lemma fl_neg: "fl (- x) = - fl x"
  using round_even_le53 [of 0] by (auto simp add: fl_def)

lemma is_double_small: "\<bar>n\<bar> \<le> 2 ^ 53 \<Longrightarrow> is_double n"
  by (simp add: is_double_def fl_exact)

text \<open>
  The exponent of \<open>fl\<close> is unbounded, whereas a binary64 operation overflows to infinity
  beyond the largest finite value. The function adds or subtracts at most \<open>2\<close>, and that
  never overflows: the result rounds back into the finite range.
\<close>

lemma fl_max: "fl (2 ^ 1024 - 2 ^ 971 + 2) = 2 ^ 1024 - 2 ^ 971"
  by code_simp

lemma fl_no_overflow:
  assumes "\<bar>n\<bar> \<le> 2 ^ 1024 - 2 ^ 971" and "\<bar>k\<bar> \<le> 2"
  shows "\<bar>fl (n + k)\<bar> \<le> 2 ^ 1024 - 2 ^ 971"
proof (rule abs_leI)
  have "fl (n + k) \<le> fl (2 ^ 1024 - 2 ^ 971 + 2)"
    using assms by (intro fl_mono) auto
  then show "fl (n + k) \<le> 2 ^ 1024 - 2 ^ 971"
    by (simp only: fl_max)
next
  have "fl (- (n + k)) \<le> fl (2 ^ 1024 - 2 ^ 971 + 2)"
    using assms by (intro fl_mono) auto
  then show "- fl (n + k) \<le> 2 ^ 1024 - 2 ^ 971"
    by (simp only: fl_max fl_neg)
qed

section \<open>Auxiliary facts on windows\<close>

lemma ToLength_small: "0 \<le> n \<Longrightarrow> n \<le> 7 \<Longrightarrow> ToLength n = nat n"
  by (simp add: ToLength_def)

lemma ToLength_nonpos: "n \<le> 0 \<Longrightarrow> ToLength n = 0"
  by (simp add: ToLength_def)

lemma map_succ_upt: "map (\<lambda>i. Num (int i + 1)) [0..<n] = map Num [1..int n]"
proof (induction n)
  case 0
  show ?case by simp
next
  case (Suc n)
  have "[1..int (Suc n)] = [1..int n] @ [int n + 1]"
    using upto_rec2 [of 1 "int (Suc n)"] by (simp add: add.commute)
  with Suc show ?case by simp
qed

lemma index_succ_exact:
  assumes "n \<le> 7"
  shows "map (\<lambda>i. Num (number_add (int i) 1)) [0..<n] = map (\<lambda>i. Num (int i + 1)) [0..<n]"
proof (rule map_cong)
  show "[0..<n] = [0..<n]" by simp
next
  fix i assume "i \<in> set [0..<n]"
  with assms have "\<bar>int i + 1\<bar> \<le> 2 ^ 53" by simp
  then show "Num (number_add (int i) 1) = Num (int i + 1)"
    by (simp only: number_add_def fl_exact)
qed

lemma all_pages:
  assumes "0 \<le> t" and "t \<le> 7"
  shows "generatePagination c t = map Num [1..t]"
proof -
  have "nat t \<le> 7" using assms by simp
  from index_succ_exact [OF this] assms show ?thesis
    by (simp add: generatePagination_def Array_from_def ToLength_small map_succ_upt)
qed

lemma numbers_map_Num: "numbers (map Num ns) = ns"
  by (induction ns) simp_all

lemma no_adjacent_map_Num: "\<not> adjacent_ellipsis (map Num ns)"
proof (induction ns)
  case Nil
  show ?case by simp
next
  case (Cons n ns)
  then show ?case by (cases ns) simp_all
qed

lemma sub_exact: "1 \<le> a \<Longrightarrow> a \<le> 2 ^ 53 \<Longrightarrow> 0 \<le> k \<Longrightarrow> k \<le> 2 \<Longrightarrow> number_sub a k = a - k"
  by (simp add: number_sub_def fl_exact)

lemma add_exact: "1 \<le> a \<Longrightarrow> a < 2 ^ 53 \<Longrightarrow> number_add a 1 = a + 1"
  by (simp add: number_add_def fl_exact)

section \<open>Small totals\<close>

text \<open>
  C1. For every \<open>totalPages\<close> in \<open>[1, 7]\<close> and every \<open>currentPage\<close> in \<open>[1, totalPages]\<close>,
  the window is exactly the full ordered sequence \<open>1, 2, ..., totalPages\<close>, and it holds no
  ellipsis marker.
\<close>

theorem small_total_all_pages:
  assumes "1 \<le> totalPages" and "totalPages \<le> 7"
    and "1 \<le> currentPage" and "currentPage \<le> totalPages"
  shows "generatePagination currentPage totalPages = map Num [1..totalPages]
       \<and> Str ''...'' \<notin> set (generatePagination currentPage totalPages)"
proof -
  have eq: "generatePagination currentPage totalPages = map Num [1..totalPages]"
    using assms by (simp add: all_pages)
  have "Str ''...'' \<notin> set (map Num [1..totalPages])" by auto
  with eq show ?thesis by simp
qed

theorem small_total_all_pages_witness:
  "(1::int) \<le> 5 \<and> (5::int) \<le> 7 \<and> (1::int) \<le> 2 \<and> (2::int) \<le> 5
   \<and> generatePagination 2 5 = [Num 1, Num 2, Num 3, Num 4, Num 5]
   \<and> Str ''...'' \<notin> set (generatePagination 2 5)"
proof -
  have u: "[1..5::int] = [1, 2, 3, 4, 5]" by (simp add: upto.simps)
  show ?thesis using small_total_all_pages [of 5 2] by (simp add: u)
qed

section \<open>Large totals: the three condensed shapes\<close>

text \<open>
  C2, as far as the code goes. For every \<open>totalPages\<close> with \<open>7 < totalPages \<le> 2 ^ 53\<close> and
  every \<open>currentPage\<close> with \<open>1 \<le> currentPage \<le> 3\<close>, the window is exactly
  \<open>[1, 2, 3, ellipsis, totalPages - 1, totalPages]\<close>.
\<close>

theorem near_start_window:
  assumes "7 < totalPages" and "totalPages \<le> 2 ^ 53"
    and "1 \<le> currentPage" and "currentPage \<le> 3"
  shows "generatePagination currentPage totalPages =
           [Num 1, Num 2, Num 3, Str ''...'', Num (totalPages - 1), Num totalPages]"
  using assms by (simp add: generatePagination_def sub_exact)

theorem near_start_window_witness:
  "(7::int) < 10 \<and> (10::int) \<le> 2 ^ 53 \<and> (1::int) \<le> 3 \<and> (3::int) \<le> 3
   \<and> generatePagination 3 10 = [Num 1, Num 2, Num 3, Str ''...'', Num 9, Num 10]"
  using near_start_window [of 10 3] by simp

text \<open>
  Beyond \<open>2 ^ 53\<close> the statement of C2 fails: \<open>2 ^ 53 + 2\<close> is a number, and for that total
  the subtraction \<open>totalPages - 1\<close> rounds to \<open>2 ^ 53\<close>, so the fifth label is not
  \<open>totalPages - 1\<close>.
\<close>

theorem near_start_window_counterexample:
  "is_double 9007199254740994
   \<and> generatePagination 1 9007199254740994 =
       [Num 1, Num 2, Num 3, Str ''...'', Num 9007199254740992, Num 9007199254740994]
   \<and> generatePagination 1 9007199254740994 \<noteq>
       [Num 1, Num 2, Num 3, Str ''...'', Num (9007199254740994 - 1), Num 9007199254740994]"
proof -
  have r: "fl 9007199254740994 = 9007199254740994" by code_simp
  have d: "is_double 9007199254740994" by (simp add: is_double_def r)
  have g: "generatePagination 1 9007199254740994 =
       [Num 1, Num 2, Num 3, Str ''...'', Num 9007199254740992, Num 9007199254740994]"
    by code_simp
  show ?thesis by (simp add: d g)
qed

text \<open>
  C3, as far as the code goes. For every \<open>totalPages\<close> with \<open>7 < totalPages \<le> 2 ^ 53\<close> and
  every \<open>currentPage\<close> with \<open>totalPages - 2 \<le> currentPage \<le> totalPages\<close> and
  \<open>currentPage > 3\<close>, the window is exactly
  \<open>[1, 2, ellipsis, totalPages - 2, totalPages - 1, totalPages]\<close>.
\<close>

theorem near_end_window:
  assumes "7 < totalPages" and "totalPages \<le> 2 ^ 53"
    and "totalPages - 2 \<le> currentPage"
    and "currentPage \<le> totalPages" and "3 < currentPage"
  shows "generatePagination currentPage totalPages =
           [Num 1, Num 2, Str ''...'', Num (totalPages - 2), Num (totalPages - 1),
            Num totalPages]"
  using assms by (simp add: generatePagination_def sub_exact)

theorem near_end_window_witness:
  "(7::int) < 10 \<and> (10::int) \<le> 2 ^ 53 \<and> (10::int) - 2 \<le> 9 \<and> (9::int) \<le> 10
   \<and> (3::int) < 9
   \<and> generatePagination 9 10 = [Num 1, Num 2, Str ''...'', Num 8, Num 9, Num 10]"
  using near_end_window [of 10 9] by simp

text \<open>
  Beyond \<open>2 ^ 53\<close> the statement of C3 fails: on the last page of \<open>2 ^ 53 + 2\<close> pages both
  \<open>totalPages - 2\<close> and \<open>totalPages - 1\<close> come out as \<open>2 ^ 53\<close>.
\<close>

theorem near_end_window_counterexample:
  "is_double 9007199254740994
   \<and> generatePagination 9007199254740994 9007199254740994 =
       [Num 1, Num 2, Str ''...'', Num 9007199254740992, Num 9007199254740992,
        Num 9007199254740994]
   \<and> generatePagination 9007199254740994 9007199254740994 \<noteq>
       [Num 1, Num 2, Str ''...'', Num (9007199254740994 - 2), Num (9007199254740994 - 1),
        Num 9007199254740994]"
proof -
  have r: "fl 9007199254740994 = 9007199254740994" by code_simp
  have d: "is_double 9007199254740994" by (simp add: is_double_def r)
  have g: "generatePagination 9007199254740994 9007199254740994 =
       [Num 1, Num 2, Str ''...'', Num 9007199254740992, Num 9007199254740992,
        Num 9007199254740994]"
    by code_simp
  show ?thesis by (simp add: d g)
qed

text \<open>
  C4, as far as the code goes. For every \<open>totalPages > 7\<close> and every \<open>currentPage\<close> with
  \<open>3 < currentPage < totalPages - 2\<close> and \<open>currentPage < 2 ^ 53\<close>, the window is exactly
  \<open>[1, ellipsis, currentPage - 1, currentPage, currentPage + 1, ellipsis, totalPages]\<close>.
\<close>

theorem middle_window:
  assumes "7 < totalPages" and "3 < currentPage" and "currentPage < totalPages - 2"
    and "currentPage < 2 ^ 53"
  shows "generatePagination currentPage totalPages =
           [Num 1, Str ''...'', Num (currentPage - 1), Num currentPage, Num (currentPage + 1),
            Str ''...'', Num totalPages]"
proof -
  have up: "number_add currentPage 1 = currentPage + 1"
    using assms by (simp add: add_exact)
  have down: "number_sub currentPage 1 = currentPage - 1"
    using assms by (simp add: sub_exact)
  have "fl (currentPage + 1) \<le> fl (totalPages - 2)"
    using assms by (intro fl_mono) simp
  with up have "\<not> number_sub totalPages 2 \<le> currentPage"
    by (simp add: number_add_def number_sub_def)
  with assms up down show ?thesis by (simp add: generatePagination_def)
qed

theorem middle_window_witness:
  "(7::int) < 10 \<and> (3::int) < 5 \<and> (5::int) < 10 - 2 \<and> (5::int) < 2 ^ 53
   \<and> generatePagination 5 10 =
         [Num 1, Str ''...'', Num 4, Num 5, Num 6, Str ''...'', Num 10]"
  using middle_window [of 10 5] by simp

text \<open>
  From \<open>currentPage = 2 ^ 53\<close> on the statement of C4 fails: on page \<open>2 ^ 53\<close> of \<open>2 ^ 54\<close>
  pages the addition \<open>currentPage + 1\<close> rounds back to \<open>2 ^ 53\<close>.
\<close>

theorem middle_window_counterexample:
  "is_double 9007199254740992 \<and> is_double 18014398509481984
   \<and> generatePagination 9007199254740992 18014398509481984 =
       [Num 1, Str ''...'', Num 9007199254740991, Num 9007199254740992,
        Num 9007199254740992, Str ''...'', Num 18014398509481984]
   \<and> generatePagination 9007199254740992 18014398509481984 \<noteq>
       [Num 1, Str ''...'', Num (9007199254740992 - 1), Num 9007199254740992,
        Num (9007199254740992 + 1), Str ''...'', Num 18014398509481984]"
proof -
  have r: "fl 18014398509481984 = 18014398509481984" by code_simp
  have d1: "is_double 9007199254740992" by (simp add: is_double_small)
  have d2: "is_double 18014398509481984" by (simp add: is_double_def r)
  have g: "generatePagination 9007199254740992 18014398509481984 =
       [Num 1, Str ''...'', Num 9007199254740991, Num 9007199254740992,
        Num 9007199254740992, Str ''...'', Num 18014398509481984]"
    by code_simp
  show ?thesis by (simp add: d1 d2 g)
qed




section \<open>Invariants of every window\<close>

text \<open>
  C6. For every \<open>totalPages \<ge> 1\<close> and every \<open>currentPage\<close> in \<open>[1, totalPages]\<close>, the window is
  not empty, its first label is the number \<open>1\<close> and its last label is the number
  \<open>totalPages\<close>; for \<open>totalPages = 1\<close> the window is the single label \<open>[1]\<close>.
\<close>

theorem window_boundaries:
  assumes "1 \<le> totalPages" and "1 \<le> currentPage" and "currentPage \<le> totalPages"
  shows "generatePagination currentPage totalPages \<noteq> []
       \<and> hd (generatePagination currentPage totalPages) = Num 1
       \<and> last (generatePagination currentPage totalPages) = Num totalPages
       \<and> (totalPages = 1 \<longrightarrow> generatePagination currentPage totalPages = [Num 1])"
proof (cases "totalPages \<le> 7")
  case True
  with assms have eq: "generatePagination currentPage totalPages = map Num [1..totalPages]"
    by (simp add: all_pages)
  from assms have front: "[1..totalPages] = 1 # [2..totalPages]"
    using upto_rec1 [of 1 totalPages] by simp
  from assms have snoc: "[1..totalPages] = [1..totalPages - 1] @ [totalPages]"
    using upto_rec2 [of 1 totalPages] by simp
  have "hd (generatePagination currentPage totalPages) = Num 1"
    by (simp add: eq front)
  moreover have "last (generatePagination currentPage totalPages) = Num totalPages"
    unfolding eq using snoc by (metis last_map last_snoc snoc_eq_iff_butlast)
  moreover have "generatePagination currentPage totalPages \<noteq> []"
    by (simp add: eq front)
  moreover have "totalPages = 1 \<longrightarrow> generatePagination currentPage totalPages = [Num 1]"
    using all_pages [of 1 currentPage] by (simp add: upto.simps)
  ultimately show ?thesis by blast
next
  case False
  then show ?thesis by (simp add: generatePagination_def)
qed

theorem window_boundaries_witness:
  "(1::int) \<le> 1 \<and> (1::int) \<le> 1 \<and> (1::int) \<le> 1
   \<and> generatePagination 1 1 \<noteq> []
   \<and> hd (generatePagination 1 1) = Num 1
   \<and> last (generatePagination 1 1) = Num 1
   \<and> generatePagination 1 1 = [Num 1]"
  using window_boundaries [of 1 1] by simp

text \<open>
  C7, as far as the code goes. For all numbers \<open>totalPages \<ge> 1\<close> and \<open>currentPage\<close> in
  \<open>[1, totalPages]\<close>, the numeric labels of the window, read left to right, never decrease,
  each of them lies in \<open>[1, totalPages]\<close>, and no two ellipsis markers are adjacent; when
  \<open>totalPages \<le> 2 ^ 53\<close> the numeric labels are strictly increasing.
\<close>

theorem window_well_formed:
  assumes "is_double currentPage" and "is_double totalPages"
    and "1 \<le> totalPages" and "1 \<le> currentPage" and "currentPage \<le> totalPages"
  shows "sorted (numbers (generatePagination currentPage totalPages))
       \<and> (\<forall>n \<in> set (numbers (generatePagination currentPage totalPages)).
             1 \<le> n \<and> n \<le> totalPages)
       \<and> \<not> adjacent_ellipsis (generatePagination currentPage totalPages)
       \<and> (totalPages \<le> 2 ^ 53 \<longrightarrow>
            sorted_wrt (<) (numbers (generatePagination currentPage totalPages)))"
proof (cases "totalPages \<le> 7")
  case True
  with assms have eq: "generatePagination currentPage totalPages = map Num [1..totalPages]"
    by (simp add: all_pages)
  show ?thesis
    by (simp add: eq numbers_map_Num no_adjacent_map_Num)
next
  case False
  have ft: "fl totalPages = totalPages" and fc: "fl currentPage = currentPage"
    using assms by (simp_all add: is_double_def)
  have f6: "fl 6 = 6" and f7: "fl 7 = 7" and f3: "fl 3 = 3"
    by (simp_all add: fl_exact)
  have t1_hi: "number_sub totalPages 1 \<le> totalPages"
    using fl_mono [of "totalPages - 1" totalPages] by (simp add: number_sub_def ft)
  have t1_lo: "7 \<le> number_sub totalPages 1"
    using False fl_mono [of 7 "totalPages - 1"] by (simp add: number_sub_def f7)
  have t2_hi: "number_sub totalPages 2 \<le> number_sub totalPages 1"
    using fl_mono [of "totalPages - 2" "totalPages - 1"] by (simp add: number_sub_def)
  have t2_lo: "6 \<le> number_sub totalPages 2"
    using False fl_mono [of 6 "totalPages - 2"] by (simp add: number_sub_def f6)
  have c1_hi: "number_sub currentPage 1 \<le> currentPage"
    using fl_mono [of "currentPage - 1" currentPage] by (simp add: number_sub_def fc)
  have c1_lo: "3 < currentPage \<Longrightarrow> 3 \<le> number_sub currentPage 1"
    using fl_mono [of 3 "currentPage - 1"] by (simp add: number_sub_def f3)
  have c2_lo: "currentPage \<le> number_add currentPage 1"
    using fl_mono [of currentPage "currentPage + 1"] by (simp add: number_add_def fc)
  have c2_hi: "currentPage < number_sub totalPages 2 \<Longrightarrow> number_add currentPage 1 \<le> totalPages"
  proof -
    assume "currentPage < number_sub totalPages 2"
    with t2_hi t1_hi have "currentPage + 1 \<le> totalPages" by simp
    then show ?thesis
      using fl_mono [of "currentPage + 1" totalPages] by (simp add: number_add_def ft)
  qed
  have ordered: "sorted (numbers (generatePagination currentPage totalPages))"
    using False t1_hi t1_lo t2_hi t2_lo c1_hi c1_lo c2_lo c2_hi
    by (auto simp add: generatePagination_def)
  have ranged: "\<forall>n \<in> set (numbers (generatePagination currentPage totalPages)).
      1 \<le> n \<and> n \<le> totalPages"
    using False assms(3-5) t1_hi t1_lo t2_hi t2_lo c1_hi c1_lo c2_lo c2_hi
    by (auto simp add: generatePagination_def)
  have apart: "\<not> adjacent_ellipsis (generatePagination currentPage totalPages)"
    using False by (simp add: generatePagination_def)
  have strict: "totalPages \<le> 2 ^ 53 \<longrightarrow>
      sorted_wrt (<) (numbers (generatePagination currentPage totalPages))"
  proof
    assume small: "totalPages \<le> 2 ^ 53"
    have e1: "number_sub totalPages 1 = totalPages - 1"
      and e2: "number_sub totalPages 2 = totalPages - 2"
      using small assms by (simp_all add: sub_exact)
    have e3: "number_sub currentPage 1 = currentPage - 1"
      using small assms by (simp add: sub_exact)
    have e4: "currentPage < totalPages - 2 \<Longrightarrow> number_add currentPage 1 = currentPage + 1"
      using small assms by (simp add: add_exact)
    show "sorted_wrt (<) (numbers (generatePagination currentPage totalPages))"
      using False by (simp add: generatePagination_def e1 e2 e3 e4)
  qed
  from ordered ranged apart strict show ?thesis by blast
qed

theorem window_well_formed_witness:
  "is_double 5 \<and> is_double 10
   \<and> (1::int) \<le> 10 \<and> (1::int) \<le> 5 \<and> (5::int) \<le> 10 \<and> (10::int) \<le> 2 ^ 53
   \<and> sorted (numbers (generatePagination 5 10))
   \<and> set (numbers (generatePagination 5 10)) \<subseteq> {1..10}
   \<and> \<not> adjacent_ellipsis (generatePagination 5 10)
   \<and> sorted_wrt (<) (numbers (generatePagination 5 10))"
proof -
  have d1: "is_double 5" and d2: "is_double 10" by (simp_all add: is_double_small)
  show ?thesis using window_well_formed [OF d1 d2] d1 d2 by auto
qed

text \<open>
  Beyond \<open>2 ^ 53\<close> the strict increase of C7 fails: on page \<open>2 ^ 53\<close> of \<open>2 ^ 54\<close> pages the
  label for \<open>currentPage + 1\<close> rounds to \<open>2 ^ 53\<close>, so the same number is shown twice.
\<close>

theorem window_well_formed_counterexample:
  "is_double 9007199254740992 \<and> is_double 18014398509481984
   \<and> (1::int) \<le> 18014398509481984
   \<and> (1::int) \<le> 9007199254740992 \<and> (9007199254740992::int) \<le> 18014398509481984
   \<and> numbers (generatePagination 9007199254740992 18014398509481984) =
       [1, 9007199254740991, 9007199254740992, 9007199254740992, 18014398509481984]
   \<and> \<not> sorted_wrt (<) (numbers (generatePagination 9007199254740992 18014398509481984))"
proof -
  have r: "fl 18014398509481984 = 18014398509481984" by code_simp
  have d1: "is_double 9007199254740992" by (simp add: is_double_small)
  have d2: "is_double 18014398509481984" by (simp add: is_double_def r)
  have g: "numbers (generatePagination 9007199254740992 18014398509481984) =
       [1, 9007199254740991, 9007199254740992, 9007199254740992, 18014398509481984]"
    by code_simp
  show ?thesis by (simp add: d1 d2 g)
qed

text \<open>
  C9. For every \<open>totalPages \<ge> 1\<close> and every \<open>currentPage\<close> in \<open>[1, totalPages]\<close>, the number
  \<open>currentPage\<close> is one of the numeric labels of the window: the active page is never hidden
  behind an ellipsis. This holds for every number \<open>currentPage\<close>, also where the
  subtractions round.
\<close>

theorem current_page_shown:
  assumes "is_double currentPage"
    and "1 \<le> totalPages" and "1 \<le> currentPage" and "currentPage \<le> totalPages"
  shows "currentPage \<in> set (numbers (generatePagination currentPage totalPages))"
proof (cases "totalPages \<le> 7")
  case True
  with assms have "generatePagination currentPage totalPages = map Num [1..totalPages]"
    by (simp add: all_pages)
  with assms show ?thesis by (simp add: numbers_map_Num)
next
  case False
  have fc: "fl currentPage = currentPage"
    using assms by (simp add: is_double_def)
  have near_end: "currentPage = totalPages \<or> currentPage = number_sub totalPages 1
      \<or> currentPage = number_sub totalPages 2"
    if reach: "number_sub totalPages 2 \<le> currentPage"
  proof (cases "currentPage \<le> totalPages - 2")
    case True
    then have "currentPage \<le> number_sub totalPages 2"
      using fl_mono [of currentPage "totalPages - 2"] by (simp add: number_sub_def fc)
    with reach show ?thesis by simp
  next
    case far: False
    show ?thesis
    proof (cases "currentPage = totalPages")
      case True
      then show ?thesis by simp
    next
      case False
      with far assms have "currentPage = totalPages - 1" by simp
      then have "number_sub totalPages 1 = currentPage"
        using fc by (simp add: number_sub_def)
      then show ?thesis by simp
    qed
  qed
  show ?thesis
  proof (cases "currentPage \<le> 3")
    case True
    with False assms show ?thesis by (auto simp add: generatePagination_def)
  next
    case mid: False
    show ?thesis
    proof (cases "number_sub totalPages 2 \<le> currentPage")
      case True
      with near_end False mid show ?thesis by (auto simp add: generatePagination_def)
    next
      case no: False
      with False mid show ?thesis by (simp add: generatePagination_def)
    qed
  qed
qed

theorem current_page_shown_witness:
  "is_double 9 \<and> (1::int) \<le> 10 \<and> (1::int) \<le> 9 \<and> (9::int) \<le> 10
   \<and> 9 \<in> set (numbers (generatePagination 9 10))"
proof -
  have d: "is_double 9" by (simp add: is_double_small)
  show ?thesis using current_page_shown [OF d, of 10] d by simp
qed

section \<open>Non-positive totals\<close>

text \<open>
  C10. For every \<open>totalPages \<le> 0\<close> and every integer \<open>currentPage\<close>, the window is the empty
  sequence: the first branch is taken and builds an array of length zero.
\<close>

theorem nonpositive_total_empty:
  assumes "totalPages \<le> 0"
  shows "generatePagination currentPage totalPages = []"
  using assms by (simp add: generatePagination_def Array_from_def ToLength_nonpos)

theorem nonpositive_total_empty_witness:
  "(- 3::int) \<le> 0 \<and> generatePagination 4 (- 3) = []"
  using nonpositive_total_empty [of "- 3" 4] by simp

end
